theory Spec2Isabelle
  imports Main "HOL-Library.Word"
begin

section \<open>Data model of \<open>src/app/page.tsx\<close>\<close>

text \<open>
  The page component keeps a list of video inputs and a list of extracted images, drives
  an ffmpeg engine over the inputs (\<open>handleProcess\<close>) and packs the images into a zip
  archive (\<open>handleDownloadAll\<close>). Both interfaces of the source have a field \<open>url\<close>,
  so the selectors are written qualified: \<open>IVideoInput.url\<close>, \<open>IImageData.url\<close>.
\<close>

type_synonym bytes = "8 word list"

record IVideoInput =
  url :: string
  frame :: int

record IImageData =
  url :: string
  filename :: string

text \<open>What a rejected promise or a thrown exception carries.\<close>

datatype error = FetchError | LoadError | RunError | FSError

text \<open>
  What one run of the engine does with the bytes of the staged input and the requested
  frame: the call itself rejects, or it completes without writing the output file (the
  bytes are no video, or the frame is out of range), or it writes the encoded frame.
\<close>

datatype run_result = RunThrows | RunNoOutput | RunOutput bytes

text \<open>
  The collaborators outside the component, as parameters:
  \<^item> \<open>network u\<close>: the body that \<open>fetch(u)\<close> followed by \<open>arrayBuffer()\<close> yields for a URL
    that is no object URL, \<open>None\<close> when either promise rejects;
  \<^item> \<open>load_result n\<close>: whether the \<open>n\<close>-th call of \<open>ffmpeg.load()\<close> resolves;
  \<^item> \<open>decoder\<close>: the engine's run on the staged bytes;
  \<^item> \<open>uuidv4 n\<close>: the \<open>n\<close>-th identifier that \<open>uuidv4()\<close> returns;
  \<^item> \<open>object_id n\<close>: the identifier inside the \<open>n\<close>-th object URL.
\<close>

record env =
  network :: "string \<Rightarrow> bytes option"
  load_result :: "nat \<Rightarrow> bool"
  decoder :: "bytes \<Rightarrow> int \<Rightarrow> run_result"
  uuidv4 :: "nat \<Rightarrow> string"
  object_id :: "nat \<Rightarrow> string"

text \<open>
  The state of the component and of the browser around it: the three \<open>useState\<close> cells,
  the engine made by \<open>useMemo\<close> (absent when there is no \<open>window\<close>), its loaded flag and
  its virtual file system, the registry of object URLs, the number of calls made so far
  to \<open>load\<close>, \<open>uuidv4\<close> and \<open>createObjectURL\<close>, and two traces: the URLs given to
  \<open>fetch\<close> and the messages given to \<open>alert\<close>.
\<close>

record state =
  videos :: "IVideoInput list"
  images :: "IImageData list"
  isProcessing :: bool
  ffmpeg_present :: bool
  isLoaded :: bool
  FS :: "string \<rightharpoonup> bytes"
  blobs :: "string \<rightharpoonup> bytes"
  load_calls :: nat
  uuid_calls :: nat
  url_calls :: nat
  fetched :: "string list"
  alerts :: "string list"

definition init_state :: state where
  "init_state =
     \<lparr>videos = [\<lparr>IVideoInput.url = '''', frame = 0\<rparr>], images = [], isProcessing = False,
      ffmpeg_present = True, isLoaded = False, FS = Map.empty, blobs = Map.empty,
      load_calls = 0, uuid_calls = 0, url_calls = 0, fetched = [], alerts = []\<rparr>"

section \<open>Filename derivation (lines 97--102)\<close>

text \<open>
  Strings are lists of characters; the derivation only compares characters with the
  slash and the dot. \<open>s.lastIndexOf(c)\<close>: the index of the last occurrence, \<open>-1\<close>
  when there is none.
\<close>

fun lastIndexOf :: "string \<Rightarrow> char \<Rightarrow> int" where
  "lastIndexOf [] c = - 1"
| "lastIndexOf (x # xs) c =
     (let r = lastIndexOf xs c
      in if 0 \<le> r then r + 1 else if x = c then 0 else - 1)"

text \<open>\<open>s.substring(i)\<close>: a negative start counts as 0, a start past the end gives \<open>""\<close>.\<close>

definition substring :: "string \<Rightarrow> int \<Rightarrow> string" where
  "substring s i = drop (nat i) s"

text \<open>The character class \<open>[^/.]\<close>.\<close>

definition ext_char :: "char \<Rightarrow> bool" where
  "ext_char c = (c \<noteq> CHR ''/'' \<and> c \<noteq> CHR ''.'')"

text \<open>
  Whether the regular expression \<open>\.[^/.]+$\<close> matches with its first character at the
  head of the string: a dot, then one or more characters of the class, then the end.
\<close>

fun ext_match :: "string \<Rightarrow> bool" where
  "ext_match [] = False"
| "ext_match (c # r) = (c = CHR ''.'' \<and> r \<noteq> [] \<and> list_all ext_char r)"

text \<open>
  \<open>s.replace(/\.[^/.]+$/, "")\<close>: the leftmost match is replaced by the empty string; a
  match runs to the end of the string, so what is left is the text before it.
\<close>

fun replace_ext :: "string \<Rightarrow> string" where
  "replace_ext [] = []"
| "replace_ext (c # r) = (if ext_match (c # r) then [] else c # replace_ext r)"

definition imageFileName :: "string \<Rightarrow> string" where
  "imageFileName u =
     (let videoFileName = substring u (lastIndexOf u CHR ''/'' + 1)
      in replace_ext videoFileName @ ''.webp'')"

text \<open>
  The derivation in the words of the specification: the text after the final slash (the
  whole URL when it has none), without its trailing extension when it has one (a dot
  followed by at least one character, none of them a dot), with \<open>.webp\<close> appended.
\<close>

definition last_segment :: "string \<Rightarrow> string" where
  "last_segment u = rev (takeWhile (\<lambda>c. c \<noteq> CHR ''/'') (rev u))"

definition extension :: "string \<Rightarrow> string" where
  "extension seg = rev (takeWhile (\<lambda>c. c \<noteq> CHR ''.'') (rev seg))"

definition has_extension :: "string \<Rightarrow> bool" where
  "has_extension seg = (CHR ''.'' \<in> set seg \<and> extension seg \<noteq> [])"

definition spec_filename :: "string \<Rightarrow> string" where
  "spec_filename u =
     (let seg = last_segment u;
          base = (if has_extension seg
                  then take (length seg - (length (extension seg) + 1)) seg
                  else seg)
      in base @ ''.webp'')"

section \<open>The browser and the engine\<close>

text \<open>Object URLs are the URLs of the \<open>blob:\<close> scheme.\<close>

definition is_object_url :: "string \<Rightarrow> bool" where
  "is_object_url u = (take 5 u = ''blob:'')"

text \<open>
  \<open>fetch(u)\<close> and the read of its body: an object URL is resolved in the registry, any
  other URL on the network. \<open>None\<close> is a rejected promise; a response with an error
  status is no rejection, its body is what is read. The URL is appended to the trace.
\<close>

definition fetch :: "env \<Rightarrow> string \<Rightarrow> state \<Rightarrow> bytes option \<times> state" where
  "fetch e u s =
     (if is_object_url u then blobs s u else network e u,
      s\<lparr>fetched := fetched s @ [u]\<rparr>)"

definition uuid :: "env \<Rightarrow> state \<Rightarrow> string \<times> state" where
  "uuid e s = (uuidv4 e (uuid_calls s), s\<lparr>uuid_calls := uuid_calls s + 1\<rparr>)"

definition createObjectURL :: "env \<Rightarrow> bytes \<Rightarrow> state \<Rightarrow> string \<times> state" where
  "createObjectURL e b s =
     (let u = ''blob:'' @ object_id e (url_calls s)
      in (u, s\<lparr>url_calls := url_calls s + 1, blobs := (blobs s)(u \<mapsto> b)\<rparr>))"

definition FS_writeFile :: "string \<Rightarrow> bytes \<Rightarrow> state \<Rightarrow> state" where
  "FS_writeFile name b s = s\<lparr>FS := (FS s)(name \<mapsto> b)\<rparr>"

text \<open>Reading or unlinking a name that is not in the file system throws: \<open>None\<close>.\<close>

definition FS_readFile :: "string \<Rightarrow> state \<Rightarrow> bytes option" where
  "FS_readFile name s = FS s name"

definition FS_unlink :: "string \<Rightarrow> state \<Rightarrow> state option" where
  "FS_unlink name s =
     (case FS s name of None \<Rightarrow> None | Some b \<Rightarrow> Some (s\<lparr>FS := (FS s)(name := None)\<rparr>))"

text \<open>
  \<open>ffmpeg.run("-i", inName, "-vf", select, "-vframes", "1", outName)\<close>: \<open>None\<close> when the
  call rejects; otherwise the state after it, with the output file written when the
  engine produced the frame. An input name that is not in the file system gives no output.
\<close>

definition ffmpeg_run :: "env \<Rightarrow> string \<Rightarrow> int \<Rightarrow> string \<Rightarrow> state \<Rightarrow> state option" where
  "ffmpeg_run e inName fr outName s =
     (case FS s inName of
        None \<Rightarrow> Some s
      | Some d \<Rightarrow>
          (case decoder e d fr of
             RunThrows \<Rightarrow> None
           | RunNoOutput \<Rightarrow> Some s
           | RunOutput img \<Rightarrow> Some (FS_writeFile outName img s)))"

text \<open>\<open>if (!ffmpeg.isLoaded()) await ffmpeg.load()\<close> (lines 62--65).\<close>

definition ensure_loaded :: "env \<Rightarrow> state \<Rightarrow> error option \<times> state" where
  "ensure_loaded e s =
     (if isLoaded s then (None, s)
      else let s' = s\<lparr>load_calls := load_calls s + 1\<rparr>
           in if load_result e (load_calls s) then (None, s'\<lparr>isLoaded := True\<rparr>)
              else (Some LoadError, s'))"

section \<open>\<open>handleProcess\<close> (lines 56--117)\<close>

text \<open>
  The body of the \<open>try\<close> block for one video (lines 69--108), on the local list
  \<open>newImages\<close> and the state. The first component is the exception that left the block,
  if any; what the block did before it stays done.
\<close>

definition try_body ::
  "env \<Rightarrow> IVideoInput \<Rightarrow> IImageData list \<times> state
     \<Rightarrow> error option \<times> IImageData list \<times> state" where
  "try_body e video acc =
     (let (newImages, s) = acc
      in case fetch e (IVideoInput.url video) s of
           (None, s1) \<Rightarrow> (Some FetchError, newImages, s1)
         | (Some videoData, s1) \<Rightarrow>
             (let (u1, s2) = uuid e s1;
                  inputFileName = u1 @ ''.mp4'';
                  s3 = FS_writeFile inputFileName videoData s2;
                  (u2, s4) = uuid e s3;
                  outputFileName = u2 @ ''.webp''
              in case ffmpeg_run e inputFileName (frame video) outputFileName s4 of
                   None \<Rightarrow> (Some RunError, newImages, s4)
                 | Some s5 \<Rightarrow>
                     (case FS_readFile outputFileName s5 of
                        None \<Rightarrow> (Some FSError, newImages, s5)
                      | Some data \<Rightarrow>
                          (let (imageUrl, s6) = createObjectURL e data s5;
                               newImages' = newImages @
                                 [\<lparr>IImageData.url = imageUrl,
                                   filename = imageFileName (IVideoInput.url video)\<rparr>]
                           in case FS_unlink inputFileName s6 of
                                None \<Rightarrow> (Some FSError, newImages', s6)
                              | Some s7 \<Rightarrow>
                                  (case FS_unlink outputFileName s7 of
                                     None \<Rightarrow> (Some FSError, newImages', s7)
                                   | Some s8 \<Rightarrow> (None, newImages', s8))))))"

definition alert_message :: "IVideoInput \<Rightarrow> string" where
  "alert_message video =
     ''There was an error processing the video: '' @ IVideoInput.url video"

text \<open>One iteration of the loop: the \<open>try\<close> block and its \<open>catch\<close> (lines 68--112).\<close>

definition process_video ::
  "env \<Rightarrow> IVideoInput \<Rightarrow> IImageData list \<times> state \<Rightarrow> IImageData list \<times> state" where
  "process_video e video acc =
     (case try_body e video acc of
        (None, newImages, s) \<Rightarrow> (newImages, s)
      | (Some err, newImages, s) \<Rightarrow>
          (newImages, s\<lparr>alerts := alerts s @ [alert_message video]\<rparr>))"

text \<open>\<open>for (const video of videos)\<close> (line 67).\<close>

fun process_loop ::
  "env \<Rightarrow> IVideoInput list \<Rightarrow> IImageData list \<times> state \<Rightarrow> IImageData list \<times> state" where
  "process_loop e [] acc = acc"
| "process_loop e (video # rest) acc = process_loop e rest (process_video e video acc)"

text \<open>
  The whole handler. The first component is the rejection of the returned promise, if
  any: only the engine's load is awaited outside a \<open>try\<close>.
\<close>

definition handleProcess :: "env \<Rightarrow> state \<Rightarrow> error option \<times> state" where
  "handleProcess e s =
     (if \<not> ffmpeg_present s then (None, s)
      else case ensure_loaded e (s\<lparr>isProcessing := True\<rparr>) of
             (Some err, s1) \<Rightarrow> (Some err, s1)
           | (None, s1) \<Rightarrow>
               (let (newImages, s2) = process_loop e (videos s1) ([], s1)
                in (None, s2\<lparr>images := newImages, isProcessing := False\<rparr>)))"

section \<open>\<open>handleDownloadAll\<close> (lines 120--138)\<close>

text \<open>
  The files of a \<open>JSZip\<close> object, in their order. \<open>zip.file(name, data)\<close> adds an entry,
  or replaces the data of the entry that has this name already, which keeps its place
  (the library stores the entries in an object keyed by name). The serialised bytes
  that \<open>generateAsync\<close> makes of them are not modelled.
\<close>

type_synonym zip = "(string \<times> bytes) list"

fun zip_file :: "string \<Rightarrow> bytes \<Rightarrow> zip \<Rightarrow> zip" where
  "zip_file name b [] = [(name, b)]"
| "zip_file name b ((n, d) # z) =
     (if n = name then (name, b) # z else (n, d) # zip_file name b z)"

text \<open>The loop over the images (lines 123--135); a failed fetch leaves the handler.\<close>

fun zip_loop :: "env \<Rightarrow> IImageData list \<Rightarrow> zip \<times> state \<Rightarrow> (error + zip) \<times> state" where
  "zip_loop e [] (z, s) = (Inr z, s)"
| "zip_loop e (imageObj # rest) (z, s) =
     (case fetch e (IImageData.url imageObj) s of
        (None, s1) \<Rightarrow> (Inl FetchError, s1)
      | (Some arrayBuffer, s1) \<Rightarrow>
          zip_loop e rest (zip_file (filename imageObj) arrayBuffer z, s1))"

definition handleDownloadAll :: "env \<Rightarrow> state \<Rightarrow> (error + zip) \<times> state" where
  "handleDownloadAll e s = zip_loop e (images s) ([], s)"

section \<open>Sessions\<close>

text \<open>What the user does in one process lifetime, one action after the other.\<close>

datatype action = SetVideos "IVideoInput list" | Process | DownloadAll

fun step :: "env \<Rightarrow> state \<Rightarrow> action \<Rightarrow> state" where
  "step e s (SetVideos vs) = s\<lparr>videos := vs\<rparr>"
| "step e s Process = snd (handleProcess e s)"
| "step e s DownloadAll = snd (handleDownloadAll e s)"

definition run_session :: "env \<Rightarrow> state \<Rightarrow> action list \<Rightarrow> state" where
  "run_session e s acts = foldl (step e) s acts"

text \<open>How many of the calls of \<open>load\<close> made so far have initialised the engine.\<close>

definition initialisations :: "env \<Rightarrow> state \<Rightarrow> nat" where
  "initialisations e s = length (filter (load_result e) [0..<load_calls s])"

section \<open>Inputs and what they should give\<close>

text \<open>
  The image that an input gives when it is processed alone: its URL is fetched from the
  network and the engine writes the frame.
\<close>

definition outcome :: "env \<Rightarrow> IVideoInput \<Rightarrow> bytes option" where
  "outcome e v =
     (case network e (IVideoInput.url v) of
        None \<Rightarrow> None
      | Some d \<Rightarrow> (case decoder e d (frame v) of RunOutput img \<Rightarrow> Some img | _ \<Rightarrow> None))"

definition valid :: "env \<Rightarrow> IVideoInput \<Rightarrow> bool" where
  "valid e v = (outcome e v \<noteq> None)"

text \<open>
  The names that one iteration of the loop gives to its two scratch files, and the
  \<open>k\<close>-th object URL.
\<close>

definition inName :: "env \<Rightarrow> state \<Rightarrow> string" where
  "inName e s = uuidv4 e (uuid_calls s) @ ''.mp4''"

definition outName :: "env \<Rightarrow> state \<Rightarrow> string" where
  "outName e s = uuidv4 e (uuid_calls s + 1) @ ''.webp''"

definition objectURL :: "env \<Rightarrow> nat \<Rightarrow> string" where
  "objectURL e k = ''blob:'' @ object_id e k"

text \<open>The image that the loop records for a valid input, with the \<open>k\<close>-th object URL.\<close>

definition image_of :: "env \<Rightarrow> nat \<Rightarrow> IVideoInput \<Rightarrow> IImageData" where
  "image_of e k v =
     \<lparr>IImageData.url = objectURL e k, filename = imageFileName (IVideoInput.url v)\<rparr>"

text \<open>
  No output name that is still to come is in the file system already. This holds in
  the initial state, and the loop keeps it when the generator never repeats itself.
\<close>

definition fresh_scratch :: "env \<Rightarrow> state \<Rightarrow> bool" where
  "fresh_scratch e s = (\<forall>n\<ge>uuid_calls s. uuidv4 e n @ ''.webp'' \<notin> dom (FS s))"

text \<open>The state in which the loop starts: after lines 59--65.\<close>

definition loaded_state :: "env \<Rightarrow> state \<Rightarrow> state" where
  "loaded_state e s = snd (ensure_loaded e (s\<lparr>isProcessing := True\<rparr>))"

text \<open>The engine is loaded exactly when one call of \<open>load\<close> has initialised it.\<close>

definition engine_inv :: "env \<Rightarrow> state \<Rightarrow> bool" where
  "engine_inv e s = (initialisations e s = (if isLoaded s then 1 else 0))"

text \<open>
  The bytes of an image are what \<open>fetch\<close> reads at its URL; its archive entry is its
  filename with these bytes.
\<close>

definition image_bytes :: "env \<Rightarrow> state \<Rightarrow> IImageData \<Rightarrow> bytes option" where
  "image_bytes e s i = fst (fetch e (IImageData.url i) s)"

definition entry_of :: "env \<Rightarrow> state \<Rightarrow> IImageData \<Rightarrow> string \<times> bytes" where
  "entry_of e s i = (filename i, the (image_bytes e s i))"

section \<open>Concrete environments and inputs\<close>

text \<open>
  Two videos whose last path segment is \<open>clip.mp4\<close> and one resource that is no video;
  every other URL is unreachable. Identifiers are unary, hence never repeated.
\<close>

definition demo_env :: env where
  "demo_env =
     \<lparr>network = (\<lambda>u. if u = ''https://x.com/a/clip.mp4'' then Some [1, 2, 3]
                     else if u = ''https://y.com/b/clip.mp4'' then Some [4, 5]
                     else if u = ''https://x.com/broken.mp4'' then Some [9]
                     else None),
      load_result = (\<lambda>n. True),
      decoder = (\<lambda>d fr. if d = [1, 2, 3] \<and> fr = 0 then RunOutput [7]
                     else if d = [4, 5] \<and> fr = 2 then RunOutput [8]
                     else RunNoOutput),
      uuidv4 = (\<lambda>n. replicate (Suc n) CHR ''u''),
      object_id = (\<lambda>n. replicate (Suc n) CHR ''o'')\<rparr>"

text \<open>An environment in which the engine never loads, and one in which only the first load fails.\<close>

definition offline_env :: env where
  "offline_env = demo_env\<lparr>load_result := (\<lambda>n. False)\<rparr>"

definition flaky_env :: env where
  "flaky_env = demo_env\<lparr>load_result := (\<lambda>n. 0 < n)\<rparr>"

definition clipA :: IVideoInput where
  "clipA = \<lparr>IVideoInput.url = ''https://x.com/a/clip.mp4'', frame = 0\<rparr>"

definition clipB :: IVideoInput where
  "clipB = \<lparr>IVideoInput.url = ''https://y.com/b/clip.mp4'', frame = 2\<rparr>"

definition unreachable :: IVideoInput where
  "unreachable = \<lparr>IVideoInput.url = ''https://nowhere.invalid/v.mp4'', frame = 0\<rparr>"

definition broken :: IVideoInput where
  "broken = \<lparr>IVideoInput.url = ''https://x.com/broken.mp4'', frame = 0\<rparr>"

definition batch_of :: "IVideoInput list \<Rightarrow> state" where
  "batch_of vs = init_state\<lparr>videos := vs\<rparr>"

text \<open>A state that holds the given images, their bytes registered under their URLs.\<close>

definition holding :: "(IImageData \<times> bytes) list \<Rightarrow> state" where
  "holding xs =
     init_state\<lparr>images := map fst xs,
                blobs := map_of (map (\<lambda>(i, b). (IImageData.url i, b)) xs)\<rparr>"

section \<open>Properties of the filename derivation\<close>

lemma lastIndexOf_neg: "(lastIndexOf xs c < 0) = (c \<notin> set xs)"
  by (induction xs) (auto simp: Let_def)

lemma lastIndexOf_absent: "c \<notin> set xs \<Longrightarrow> lastIndexOf xs c = - 1"
  by (induction xs) (auto simp: Let_def)

lemma substring_lastIndexOf:
  "substring xs (lastIndexOf xs c + 1) = rev (takeWhile (\<lambda>x. x \<noteq> c) (rev xs))"
proof (induction xs)
  case Nil
  then show ?case by (simp add: substring_def)
next
  case (Cons x xs)
  show ?case
  proof (cases "c \<in> set xs")
    case True
    then have r: "0 \<le> lastIndexOf xs c"
      using lastIndexOf_neg [of xs c] by simp
    then have "nat (lastIndexOf xs c + 1 + 1) = Suc (nat (lastIndexOf xs c + 1))"
      by simp
    with r have "substring (x # xs) (lastIndexOf (x # xs) c + 1) =
        substring xs (lastIndexOf xs c + 1)"
      by (simp add: substring_def Let_def)
    moreover from True
    have "takeWhile (\<lambda>x. x \<noteq> c) (rev xs @ [x]) = takeWhile (\<lambda>x. x \<noteq> c) (rev xs)"
      by (intro takeWhile_append1 [of c]) auto
    ultimately show ?thesis using Cons.IH by simp
  next
    case False
    then have r: "lastIndexOf xs c = - 1" by (rule lastIndexOf_absent)
    from False
    have tw: "takeWhile (\<lambda>x. x \<noteq> c) (rev xs @ [x]) =
        rev xs @ takeWhile (\<lambda>x. x \<noteq> c) [x]"
      by (intro takeWhile_append2) auto
    show ?thesis using r tw by (simp add: substring_def Let_def)
  qed
qed

lemma videoFileName_last_segment:
  "substring u (lastIndexOf u CHR ''/'' + 1) = last_segment u"
  by (simp add: substring_lastIndexOf last_segment_def)

lemma last_segment_no_slash: "CHR ''/'' \<notin> set (last_segment u)"
  by (auto simp: last_segment_def dest: set_takeWhileD)

lemma replace_ext_no_dot: "CHR ''.'' \<notin> set s \<Longrightarrow> replace_ext s = s"
  by (induction s) auto

lemma list_all_ext_char:
  "list_all ext_char x = (CHR ''/'' \<notin> set x \<and> CHR ''.'' \<notin> set x)"
  by (induction x) (auto simp: ext_char_def)

text \<open>The only place where the expression can match is the last dot.\<close>

lemma replace_ext_split:
  "CHR ''.'' \<notin> set x \<Longrightarrow>
   replace_ext (p @ CHR ''.'' # x) =
     (if x \<noteq> [] \<and> CHR ''/'' \<notin> set x then p else p @ CHR ''.'' # x)"
  by (induction p) (auto simp: list_all_ext_char replace_ext_no_dot ext_char_def)

lemma extension_split: "CHR ''.'' \<notin> set x \<Longrightarrow> extension (p @ CHR ''.'' # x) = x"
proof -
  assume "CHR ''.'' \<notin> set x"
  then have "takeWhile (\<lambda>c. c \<noteq> CHR ''.'') (rev x @ CHR ''.'' # rev p) = rev x"
    by (auto simp: takeWhile_tail)
  then show ?thesis by (simp add: extension_def)
qed

lemma replace_ext_spec:
  assumes "CHR ''/'' \<notin> set seg"
  shows "replace_ext seg =
    (if has_extension seg then take (length seg - (length (extension seg) + 1)) seg
     else seg)"
proof (cases "CHR ''.'' \<in> set seg")
  case False
  then show ?thesis by (simp add: replace_ext_no_dot has_extension_def)
next
  case True
  then obtain p x where seg: "seg = p @ CHR ''.'' # x" and x: "CHR ''.'' \<notin> set x"
    by (auto dest: split_list_last)
  from assms seg have "CHR ''/'' \<notin> set x" by simp
  with x show ?thesis
    by (simp add: seg replace_ext_split extension_split has_extension_def)
qed

text \<open>
  Claim C2, as the specification states it, gives \<open>a.b.webp\<close> as the filename derived
  from \<open>https://x.com/a.b.c.mov\<close>. The derivation removes the last extension only, so
  the stated filename is not the derived one.
\<close>

theorem imageFileName_two_dots_counterexample:
  "imageFileName ''https://x.com/a.b.c.mov'' \<noteq> ''a.b.webp''"
  by (simp add: imageFileName_def substring_def ext_char_def)

text \<open>
  Claim C2, amended: the filename is a function of the URL alone, and it is the one the
  specification describes (the text after the final slash, or the whole URL when there
  is none, without a trailing non-empty dot-free extension, followed by \<open>.webp\<close>);
  \<open>https://x.com/a/clip.mp4\<close> gives \<open>clip.webp\<close>, \<open>https://x.com/noext\<close> gives
  \<open>noext.webp\<close>, and \<open>https://x.com/a.b.c.mov\<close> gives \<open>a.b.c.webp\<close>.
\<close>

theorem imageFileName_spec:
  "imageFileName u = spec_filename u
   \<and> imageFileName ''https://x.com/a/clip.mp4'' = ''clip.webp''
   \<and> imageFileName ''https://x.com/noext'' = ''noext.webp''
   \<and> imageFileName ''https://x.com/a.b.c.mov'' = ''a.b.c.webp''"
proof -
  have "imageFileName u = spec_filename u"
    by (simp add: imageFileName_def spec_filename_def Let_def videoFileName_last_segment
        replace_ext_spec [OF last_segment_no_slash])
  moreover have "imageFileName ''https://x.com/a/clip.mp4'' = ''clip.webp''"
    by (simp add: imageFileName_def substring_def ext_char_def)
  moreover have "imageFileName ''https://x.com/noext'' = ''noext.webp''"
    by (simp add: imageFileName_def substring_def ext_char_def)
  moreover have "imageFileName ''https://x.com/a.b.c.mov'' = ''a.b.c.webp''"
    by (simp add: imageFileName_def substring_def ext_char_def)
  ultimately show ?thesis by blast
qed

text \<open>
  Claim C8: a URL that is empty or ends in a slash has an empty last segment, nothing is
  stripped from it, and the derived filename is exactly \<open>.webp\<close>.
\<close>

theorem imageFileName_empty_segment:
  "u = [] \<or> last u = CHR ''/'' \<Longrightarrow> imageFileName u = ''.webp''"
proof -
  assume a: "u = [] \<or> last u = CHR ''/''"
  have "last_segment u = []"
  proof (cases u rule: rev_cases)
    case Nil
    then show ?thesis by (simp add: last_segment_def)
  next
    case (snoc ys y)
    with a show ?thesis by (simp add: last_segment_def)
  qed
  then show ?thesis by (simp add: imageFileName_def videoFileName_last_segment)
qed

theorem imageFileName_empty_segment_witness:
  "(''https://x.com/clips/'' = [] \<or> last ''https://x.com/clips/'' = CHR ''/'')
   \<and> imageFileName ''https://x.com/clips/'' = ''.webp''
   \<and> imageFileName [] = ''.webp''"
  using imageFileName_empty_segment [of "''https://x.com/clips/''"]
    imageFileName_empty_segment [of "[]"]
  by simp

section \<open>One iteration of the loop\<close>

lemma in_neq_out: "u1 @ ''.mp4'' \<noteq> u2 @ ''.webp''"
proof
  assume "u1 @ ''.mp4'' = u2 @ ''.webp''"
  then have "last (u1 @ ''.mp4'') = last (u2 @ ''.webp'')" by simp
  then show False by simp
qed

lemmas step_defs = process_video_def try_body_def fetch_def uuid_def createObjectURL_def
  FS_writeFile_def FS_readFile_def FS_unlink_def ffmpeg_run_def Let_def

text \<open>
  The five ways through the \<open>try\<close> block, by what the fetch, the engine and the file
  system give: the fetch fails; the run rejects; the run writes no output and the read
  of the output throws; the run writes no output but a file of that name is there and
  is read in its place; the run writes the frame.
\<close>

lemma fetch_network: "\<not> is_object_url u \<Longrightarrow> fst (fetch e u s) = network e u"
  by (simp add: fetch_def)

lemma any_fetch_fails:
  assumes "fst (fetch e (IVideoInput.url v) s) = None"
  shows "process_video e v (imgs, s) =
    (imgs, s\<lparr>fetched := fetched s @ [IVideoInput.url v],
             alerts := alerts s @ [alert_message v]\<rparr>)"
  using assms by (simp add: step_defs)

lemma any_run_throws:
  assumes "fst (fetch e (IVideoInput.url v) s) = Some d"
    "decoder e d (frame v) = RunThrows"
  shows "process_video e v (imgs, s) =
    (imgs, s\<lparr>fetched := fetched s @ [IVideoInput.url v],
             uuid_calls := uuid_calls s + 2,
             FS := (FS s)(inName e s \<mapsto> d),
             alerts := alerts s @ [alert_message v]\<rparr>)"
  using assms by (simp add: step_defs inName_def outName_def)

lemma any_no_output:
  assumes "fst (fetch e (IVideoInput.url v) s) = Some d"
    "decoder e d (frame v) = RunNoOutput" "FS s (outName e s) = None"
  shows "process_video e v (imgs, s) =
    (imgs, s\<lparr>fetched := fetched s @ [IVideoInput.url v],
             uuid_calls := uuid_calls s + 2,
             FS := (FS s)(inName e s \<mapsto> d),
             alerts := alerts s @ [alert_message v]\<rparr>)"
  using assms by (simp add: step_defs inName_def outName_def in_neq_out)

lemma any_stale_output:
  assumes "fst (fetch e (IVideoInput.url v) s) = Some d"
    "decoder e d (frame v) = RunNoOutput" "FS s (outName e s) = Some old"
  shows "process_video e v (imgs, s) =
    (imgs @ [\<lparr>IImageData.url = objectURL e (url_calls s),
              filename = imageFileName (IVideoInput.url v)\<rparr>],
     s\<lparr>fetched := fetched s @ [IVideoInput.url v],
       uuid_calls := uuid_calls s + 2,
       FS := (FS s)(inName e s := None, outName e s := None),
       url_calls := url_calls s + 1,
       blobs := (blobs s)(objectURL e (url_calls s) \<mapsto> old)\<rparr>)"
  using assms by (simp add: step_defs inName_def outName_def in_neq_out objectURL_def)

lemma any_output:
  assumes "fst (fetch e (IVideoInput.url v) s) = Some d"
    "decoder e d (frame v) = RunOutput img"
  shows "process_video e v (imgs, s) =
    (imgs @ [\<lparr>IImageData.url = objectURL e (url_calls s),
              filename = imageFileName (IVideoInput.url v)\<rparr>],
     s\<lparr>fetched := fetched s @ [IVideoInput.url v],
       uuid_calls := uuid_calls s + 2,
       FS := (FS s)(inName e s := None, outName e s := None),
       url_calls := url_calls s + 1,
       blobs := (blobs s)(objectURL e (url_calls s) \<mapsto> img)\<rparr>)"
  using assms by (simp add: step_defs inName_def outName_def in_neq_out objectURL_def)

text \<open>
  The same for an input whose URL is no object URL, by what the network gives, and with
  an output name that is not in the file system.
\<close>

lemma process_video_fetch_fails:
  assumes "\<not> is_object_url (IVideoInput.url v)" "network e (IVideoInput.url v) = None"
  shows "process_video e v (imgs, s) =
    (imgs, s\<lparr>fetched := fetched s @ [IVideoInput.url v],
             alerts := alerts s @ [alert_message v]\<rparr>)"
  using assms by (simp add: any_fetch_fails fetch_network)

lemma process_video_run_throws:
  assumes "\<not> is_object_url (IVideoInput.url v)" "network e (IVideoInput.url v) = Some d"
    "decoder e d (frame v) = RunThrows"
  shows "process_video e v (imgs, s) =
    (imgs, s\<lparr>fetched := fetched s @ [IVideoInput.url v],
             uuid_calls := uuid_calls s + 2,
             FS := (FS s)(inName e s \<mapsto> d),
             alerts := alerts s @ [alert_message v]\<rparr>)"
  using assms by (simp add: any_run_throws fetch_network)

lemma process_video_no_output:
  assumes "\<not> is_object_url (IVideoInput.url v)" "network e (IVideoInput.url v) = Some d"
    "decoder e d (frame v) = RunNoOutput" "FS s (outName e s) = None"
  shows "process_video e v (imgs, s) =
    (imgs, s\<lparr>fetched := fetched s @ [IVideoInput.url v],
             uuid_calls := uuid_calls s + 2,
             FS := (FS s)(inName e s \<mapsto> d),
             alerts := alerts s @ [alert_message v]\<rparr>)"
  using assms by (simp add: any_no_output fetch_network)

lemma process_video_output:
  assumes "\<not> is_object_url (IVideoInput.url v)" "network e (IVideoInput.url v) = Some d"
    "decoder e d (frame v) = RunOutput img"
  shows "process_video e v (imgs, s) =
    (imgs @ [\<lparr>IImageData.url = objectURL e (url_calls s),
              filename = imageFileName (IVideoInput.url v)\<rparr>],
     s\<lparr>fetched := fetched s @ [IVideoInput.url v],
       uuid_calls := uuid_calls s + 2,
       FS := (FS s)(inName e s := None, outName e s := None),
       url_calls := url_calls s + 1,
       blobs := (blobs s)(objectURL e (url_calls s) \<mapsto> img)\<rparr>)"
  using assms by (simp add: any_output fetch_network)

lemma fresh_out: "fresh_scratch e s \<Longrightarrow> FS s (outName e s) = None"
proof -
  assume "fresh_scratch e s"
  then have "uuid_calls s \<le> uuid_calls s + 1 \<longrightarrow>
      uuidv4 e (uuid_calls s + 1) @ ''.webp'' \<notin> dom (FS s)"
    unfolding fresh_scratch_def by (rule spec)
  then have "uuidv4 e (uuid_calls s + 1) @ ''.webp'' \<notin> dom (FS s)"
    by simp
  then show ?thesis by (auto simp: outName_def)
qed

lemma fresh_step:
  assumes "fresh_scratch e s" "inj (uuidv4 e)"
    "dom F \<subseteq> insert (inName e s) (insert (outName e s) (dom (FS s)))"
  shows "fresh_scratch e (s\<lparr>uuid_calls := uuid_calls s + 2, FS := F\<rparr>)"
  unfolding fresh_scratch_def
proof (intro allI impI)
  fix n
  assume "uuid_calls (s\<lparr>uuid_calls := uuid_calls s + 2, FS := F\<rparr>) \<le> n"
  then have n: "uuid_calls s + 2 \<le> n" by simp
  then have a: "uuidv4 e n @ ''.webp'' \<notin> dom (FS s)"
    using assms(1) by (simp add: fresh_scratch_def)
  have b: "uuidv4 e n @ ''.webp'' \<noteq> inName e s"
    using in_neq_out [of "uuidv4 e (uuid_calls s)" "uuidv4 e n"] by (simp add: inName_def)
  from n have "n \<noteq> uuid_calls s + 1" by simp
  with assms(2) have c: "uuidv4 e n @ ''.webp'' \<noteq> outName e s"
    by (auto simp: outName_def dest: injD)
  from a b c assms(3) show "uuidv4 e n @ ''.webp'' \<notin> dom (FS (s\<lparr>uuid_calls := uuid_calls s + 2, FS := F\<rparr>))"
    by auto
qed

lemma valid_cases:
  obtains (fetch_fails) "network e (IVideoInput.url v) = None" "\<not> valid e v"
  | (run_throws) d where "network e (IVideoInput.url v) = Some d"
      "decoder e d (frame v) = RunThrows" "\<not> valid e v"
  | (no_output) d where "network e (IVideoInput.url v) = Some d"
      "decoder e d (frame v) = RunNoOutput" "\<not> valid e v"
  | (frame_written) d img where "network e (IVideoInput.url v) = Some d"
      "decoder e d (frame v) = RunOutput img" "outcome e v = Some img" "valid e v"
proof (cases "network e (IVideoInput.url v)")
  case None
  then show ?thesis by (intro fetch_fails) (simp_all add: valid_def outcome_def)
next
  case (Some d)
  show ?thesis
  proof (cases "decoder e d (frame v)")
    case RunThrows
    with Some show ?thesis by (intro run_throws[of d]) (simp_all add: valid_def outcome_def)
  next
    case RunNoOutput
    with Some show ?thesis by (intro no_output[of d]) (simp_all add: valid_def outcome_def)
  next
    case (RunOutput img)
    with Some show ?thesis by (intro frame_written[of d img]) (simp_all add: valid_def outcome_def)
  qed
qed

text \<open>What one iteration does, field by field.\<close>

lemma process_video_effect:
  assumes obj: "\<not> is_object_url (IVideoInput.url v)"
    and fresh: "fresh_scratch e s" and inj: "inj (uuidv4 e)"
  shows "fst (process_video e v (imgs, s)) =
           imgs @ (if valid e v then [image_of e (url_calls s) v] else [])"
    and "alerts (snd (process_video e v (imgs, s))) =
           alerts s @ (if valid e v then [] else [alert_message v])"
    and "fetched (snd (process_video e v (imgs, s))) = fetched s @ [IVideoInput.url v]"
    and "url_calls (snd (process_video e v (imgs, s))) =
           url_calls s + (if valid e v then 1 else 0)"
    and "blobs (snd (process_video e v (imgs, s))) =
           (if valid e v then (blobs s)(objectURL e (url_calls s) := outcome e v) else blobs s)"
    and "fresh_scratch e (snd (process_video e v (imgs, s)))"
    and "isLoaded (snd (process_video e v (imgs, s))) = isLoaded s"
    and "load_calls (snd (process_video e v (imgs, s))) = load_calls s"
    and "videos (snd (process_video e v (imgs, s))) = videos s"
proof -
  let ?r = "process_video e v (imgs, s)"
  have "fst ?r = imgs @ (if valid e v then [image_of e (url_calls s) v] else [])
    \<and> alerts (snd ?r) = alerts s @ (if valid e v then [] else [alert_message v])
    \<and> fetched (snd ?r) = fetched s @ [IVideoInput.url v]
    \<and> url_calls (snd ?r) = url_calls s + (if valid e v then 1 else 0)
    \<and> blobs (snd ?r) =
        (if valid e v then (blobs s)(objectURL e (url_calls s) := outcome e v) else blobs s)
    \<and> fresh_scratch e (snd ?r)
    \<and> isLoaded (snd ?r) = isLoaded s \<and> load_calls (snd ?r) = load_calls s
    \<and> videos (snd ?r) = videos s"
  proof (cases e v rule: valid_cases)
    case fetch_fails
    have "fresh_scratch e (s\<lparr>fetched := fetched s @ [IVideoInput.url v],
             alerts := alerts s @ [alert_message v]\<rparr>)"
      using fresh by (simp add: fresh_scratch_def)
    then show ?thesis
      using fetch_fails by (simp add: process_video_fetch_fails [OF obj])
  next
    case (run_throws d)
    have "fresh_scratch e (s\<lparr>uuid_calls := uuid_calls s + 2, FS := (FS s)(inName e s \<mapsto> d)\<rparr>)"
      by (rule fresh_step [OF fresh inj]) auto
    then have "fresh_scratch e (s\<lparr>fetched := fetched s @ [IVideoInput.url v],
             uuid_calls := uuid_calls s + 2,
             FS := (FS s)(inName e s \<mapsto> d),
             alerts := alerts s @ [alert_message v]\<rparr>)"
      by (simp add: fresh_scratch_def)
    then show ?thesis
      using run_throws by (simp add: process_video_run_throws [OF obj])
  next
    case (no_output d)
    have "fresh_scratch e (s\<lparr>uuid_calls := uuid_calls s + 2, FS := (FS s)(inName e s \<mapsto> d)\<rparr>)"
      by (rule fresh_step [OF fresh inj]) auto
    then have "fresh_scratch e (s\<lparr>fetched := fetched s @ [IVideoInput.url v],
             uuid_calls := uuid_calls s + 2,
             FS := (FS s)(inName e s \<mapsto> d),
             alerts := alerts s @ [alert_message v]\<rparr>)"
      by (simp add: fresh_scratch_def)
    then show ?thesis
      using no_output by (simp add: process_video_no_output [OF obj _ _ fresh_out [OF fresh]])
  next
    case (frame_written d img)
    have "fresh_scratch e (s\<lparr>uuid_calls := uuid_calls s + 2,
        FS := (FS s)(inName e s := None, outName e s := None)\<rparr>)"
      by (rule fresh_step [OF fresh inj]) auto
    then have "fresh_scratch e (s\<lparr>fetched := fetched s @ [IVideoInput.url v],
       uuid_calls := uuid_calls s + 2,
       FS := (FS s)(inName e s := None, outName e s := None),
       url_calls := url_calls s + 1,
       blobs := (blobs s)(objectURL e (url_calls s) \<mapsto> img)\<rparr>)"
      by (simp add: fresh_scratch_def)
    then show ?thesis
      using frame_written by (simp add: process_video_output [OF obj] image_of_def)
  qed
  then show "fst (process_video e v (imgs, s)) =
           imgs @ (if valid e v then [image_of e (url_calls s) v] else [])"
    and "alerts (snd (process_video e v (imgs, s))) =
           alerts s @ (if valid e v then [] else [alert_message v])"
    and "fetched (snd (process_video e v (imgs, s))) = fetched s @ [IVideoInput.url v]"
    and "url_calls (snd (process_video e v (imgs, s))) =
           url_calls s + (if valid e v then 1 else 0)"
    and "blobs (snd (process_video e v (imgs, s))) =
           (if valid e v then (blobs s)(objectURL e (url_calls s) := outcome e v) else blobs s)"
    and "fresh_scratch e (snd (process_video e v (imgs, s)))"
    and "isLoaded (snd (process_video e v (imgs, s))) = isLoaded s"
    and "load_calls (snd (process_video e v (imgs, s))) = load_calls s"
    and "videos (snd (process_video e v (imgs, s))) = videos s"
    by simp_all
qed

section \<open>The whole loop\<close>

lemma process_loop_effect:
  assumes "\<forall>v\<in>set vs. \<not> is_object_url (IVideoInput.url v)"
    and "fresh_scratch e s" and "inj (uuidv4 e)"
  shows "fst (process_loop e vs (imgs, s)) =
           imgs @ map (\<lambda>(k, v). image_of e k v) (enumerate (url_calls s) (filter (valid e) vs))
    \<and> alerts (snd (process_loop e vs (imgs, s))) =
           alerts s @ map alert_message (filter (\<lambda>v. \<not> valid e v) vs)
    \<and> fetched (snd (process_loop e vs (imgs, s))) = fetched s @ map IVideoInput.url vs
    \<and> url_calls (snd (process_loop e vs (imgs, s))) = url_calls s + length (filter (valid e) vs)
    \<and> fresh_scratch e (snd (process_loop e vs (imgs, s)))
    \<and> isLoaded (snd (process_loop e vs (imgs, s))) = isLoaded s
    \<and> load_calls (snd (process_loop e vs (imgs, s))) = load_calls s
    \<and> videos (snd (process_loop e vs (imgs, s))) = videos s"
  using assms
proof (induction vs arbitrary: imgs s)
  case Nil
  then show ?case by simp
next
  case (Cons v vs)
  obtain imgs1 s1 where r: "process_video e v (imgs, s) = (imgs1, s1)"
    by (cases "process_video e v (imgs, s)")
  from Cons.prems have obj: "\<not> is_object_url (IVideoInput.url v)"
    and objs: "\<forall>v\<in>set vs. \<not> is_object_url (IVideoInput.url v)" by simp_all
  note eff = process_video_effect [OF obj Cons.prems(2) Cons.prems(3), of imgs, unfolded r fst_conv snd_conv]
  note ih = Cons.IH [OF objs eff(6) Cons.prems(3), of imgs1]
  show ?case
  proof (cases "valid e v")
    case True
    with eff ih show ?thesis by (simp add: r)
  next
    case False
    with eff ih show ?thesis by (simp add: r)
  qed
qed

lemma objectURL_eq: "inj (object_id e) \<Longrightarrow> (objectURL e j = objectURL e k) = (j = k)"
  by (auto simp: objectURL_def dest: injD)

lemma process_loop_blobs_frame:
  assumes "\<forall>v\<in>set vs. \<not> is_object_url (IVideoInput.url v)"
    and "fresh_scratch e s" and "inj (uuidv4 e)" and "inj (object_id e)"
    and "j < url_calls s"
  shows "blobs (snd (process_loop e vs (imgs, s))) (objectURL e j) = blobs s (objectURL e j)"
  using assms
proof (induction vs arbitrary: imgs s)
  case Nil
  then show ?case by simp
next
  case (Cons v vs)
  obtain imgs1 s1 where r: "process_video e v (imgs, s) = (imgs1, s1)"
    by (cases "process_video e v (imgs, s)")
  from Cons.prems have obj: "\<not> is_object_url (IVideoInput.url v)"
    and objs: "\<forall>v\<in>set vs. \<not> is_object_url (IVideoInput.url v)" by simp_all
  note eff = process_video_effect [OF obj Cons.prems(2) Cons.prems(3), of imgs, unfolded r fst_conv snd_conv]
  from eff(4) Cons.prems(5) have j: "j < url_calls s1" by simp
  have "blobs (snd (process_loop e vs (imgs1, s1))) (objectURL e j) = blobs s1 (objectURL e j)"
    by (rule Cons.IH [OF objs eff(6) Cons.prems(3) Cons.prems(4) j])
  moreover from Cons.prems(5) have "objectURL e (url_calls s) \<noteq> objectURL e j"
    by (simp add: objectURL_eq [OF Cons.prems(4)])
  ultimately show ?case using eff(5) by (simp add: r)
qed

lemma process_loop_blobs:
  assumes "\<forall>v\<in>set vs. \<not> is_object_url (IVideoInput.url v)"
    and "fresh_scratch e s" and "inj (uuidv4 e)" and "inj (object_id e)"
    and "(k, w) \<in> set (enumerate (url_calls s) (filter (valid e) vs))"
  shows "blobs (snd (process_loop e vs (imgs, s))) (objectURL e k) = outcome e w"
  using assms
proof (induction vs arbitrary: imgs s)
  case Nil
  then show ?case by simp
next
  case (Cons v vs)
  obtain imgs1 s1 where r: "process_video e v (imgs, s) = (imgs1, s1)"
    by (cases "process_video e v (imgs, s)")
  from Cons.prems have obj: "\<not> is_object_url (IVideoInput.url v)"
    and objs: "\<forall>v\<in>set vs. \<not> is_object_url (IVideoInput.url v)" by simp_all
  note eff = process_video_effect [OF obj Cons.prems(2) Cons.prems(3), of imgs, unfolded r fst_conv snd_conv]
  show ?case
  proof (cases "valid e v \<and> k = url_calls s \<and> w = v")
    case True
    then have "url_calls s < url_calls s1" using eff(4) by simp
    then have "blobs (snd (process_loop e vs (imgs1, s1))) (objectURL e (url_calls s)) =
        blobs s1 (objectURL e (url_calls s))"
      by (rule process_loop_blobs_frame [OF objs eff(6) Cons.prems(3) Cons.prems(4)])
    with True eff(5) show ?thesis by (simp add: r)
  next
    case False
    with Cons.prems(5) eff(4)
    have "(k, w) \<in> set (enumerate (url_calls s1) (filter (valid e) vs))"
      by (auto split: if_splits)
    then have "blobs (snd (process_loop e vs (imgs1, s1))) (objectURL e k) = outcome e w"
      by (rule Cons.IH [OF objs eff(6) Cons.prems(3) Cons.prems(4)])
    then show ?thesis by (simp add: r)
  qed
qed

lemma process_loop_all_valid:
  assumes "\<forall>v\<in>set vs. \<not> is_object_url (IVideoInput.url v) \<and> valid e v"
  shows "length (fst (process_loop e vs (imgs, s))) = length imgs + length vs
    \<and> alerts (snd (process_loop e vs (imgs, s))) = alerts s"
  using assms
proof (induction vs arbitrary: imgs s)
  case Nil
  then show ?case by simp
next
  case (Cons v vs)
  then have obj: "\<not> is_object_url (IVideoInput.url v)" and v: "valid e v" by simp_all
  from v obtain d img where "network e (IVideoInput.url v) = Some d"
    "decoder e d (frame v) = RunOutput img"
    by (cases e v rule: valid_cases) simp_all
  note out = process_video_output [OF obj this]
  from Cons.prems have "\<forall>v\<in>set vs. \<not> is_object_url (IVideoInput.url v) \<and> valid e v"
    by simp
  note ih = Cons.IH [OF this]
  show ?case by (simp add: out ih)
qed

lemma process_loop_append:
  "process_loop e (xs @ ys) acc = process_loop e ys (process_loop e xs acc)"
  by (induction xs arbitrary: acc) simp_all

lemma handleProcess_loaded:
  assumes "ffmpeg_present s" "isLoaded s \<or> load_result e (load_calls s)"
  shows "handleProcess e s =
    (None, (snd (process_loop e (videos s) ([], loaded_state e s)))
             \<lparr>images := fst (process_loop e (videos s) ([], loaded_state e s)),
              isProcessing := False\<rparr>)"
  using assms
  by (auto simp: handleProcess_def ensure_loaded_def loaded_state_def Let_def split: prod.splits)

lemma loaded_state_fields:
  "url_calls (loaded_state e s) = url_calls s"
  "alerts (loaded_state e s) = alerts s"
  "fetched (loaded_state e s) = fetched s"
  "fresh_scratch e (loaded_state e s) = fresh_scratch e s"
  "FS (loaded_state e s) = FS s"
  "blobs (loaded_state e s) = blobs s"
  "uuid_calls (loaded_state e s) = uuid_calls s"
  by (simp_all add: loaded_state_def ensure_loaded_def Let_def fresh_scratch_def)

lemma map_filename_image_of:
  "map (filename \<circ> (\<lambda>(k, v). image_of e k v)) (enumerate n vs) =
   map (\<lambda>v. imageFileName (IVideoInput.url v)) vs"
  by (induction vs arbitrary: n) (simp_all add: image_of_def)

section \<open>Scratch names stay fresh\<close>

text \<open>
  Whatever an iteration does, it either leaves the file system and the count of
  identifiers alone or draws two identifiers and touches its own two names only. So
  \<open>fresh_scratch\<close> holds in every state of every session, provided the generator never
  repeats itself.
\<close>

lemma fresh_scratch_cong:
  "uuid_calls a = uuid_calls b \<Longrightarrow> FS a = FS b \<Longrightarrow> fresh_scratch e a = fresh_scratch e b"
  by (simp add: fresh_scratch_def)

lemma process_video_scratch:
  "(uuid_calls (snd (process_video e v (imgs, s))) = uuid_calls s
      \<and> FS (snd (process_video e v (imgs, s))) = FS s)
   \<or> (uuid_calls (snd (process_video e v (imgs, s))) = uuid_calls s + 2
      \<and> dom (FS (snd (process_video e v (imgs, s))))
          \<subseteq> insert (inName e s) (insert (outName e s) (dom (FS s))))"
proof (cases "fst (fetch e (IVideoInput.url v) s)")
  case None
  then show ?thesis by (simp add: any_fetch_fails)
next
  case (Some d)
  show ?thesis
  proof (cases "decoder e d (frame v)")
    case RunThrows
    with Some have "process_video e v (imgs, s) =
      (imgs, s\<lparr>fetched := fetched s @ [IVideoInput.url v],
             uuid_calls := uuid_calls s + 2,
             FS := (FS s)(inName e s \<mapsto> d),
             alerts := alerts s @ [alert_message v]\<rparr>)"
      by (rule any_run_throws)
    then show ?thesis by auto
  next
    case RunNoOutput
    show ?thesis
    proof (cases "FS s (outName e s)")
      case None
      with Some RunNoOutput have "process_video e v (imgs, s) =
        (imgs, s\<lparr>fetched := fetched s @ [IVideoInput.url v],
             uuid_calls := uuid_calls s + 2,
             FS := (FS s)(inName e s \<mapsto> d),
             alerts := alerts s @ [alert_message v]\<rparr>)"
        by (intro any_no_output)
      then show ?thesis by auto
    next
      case (Some old)
      with \<open>fst (fetch e (IVideoInput.url v) s) = Some d\<close> RunNoOutput
      have "FS (snd (process_video e v (imgs, s))) =
          (FS s)(inName e s := None, outName e s := None)"
        "uuid_calls (snd (process_video e v (imgs, s))) = uuid_calls s + 2"
        by (simp_all add: any_stale_output)
      then show ?thesis by auto
    qed
  next
    case (RunOutput img)
    with Some
    have "FS (snd (process_video e v (imgs, s))) =
        (FS s)(inName e s := None, outName e s := None)"
      "uuid_calls (snd (process_video e v (imgs, s))) = uuid_calls s + 2"
      by (simp_all add: any_output)
    then show ?thesis by auto
  qed
qed

lemma process_video_fresh:
  assumes "fresh_scratch e s" "inj (uuidv4 e)"
  shows "fresh_scratch e (snd (process_video e v (imgs, s)))"
proof -
  let ?s' = "snd (process_video e v (imgs, s))"
  from process_video_scratch [of e v imgs s] show ?thesis
  proof
    assume "uuid_calls ?s' = uuid_calls s \<and> FS ?s' = FS s"
    then show ?thesis using assms(1) fresh_scratch_cong [of ?s' s e] by simp
  next
    assume a: "uuid_calls ?s' = uuid_calls s + 2
      \<and> dom (FS ?s') \<subseteq> insert (inName e s) (insert (outName e s) (dom (FS s)))"
    then have "fresh_scratch e (s\<lparr>uuid_calls := uuid_calls s + 2, FS := FS ?s'\<rparr>)"
      by (intro fresh_step [OF assms]) simp
    moreover have "fresh_scratch e ?s' =
        fresh_scratch e (s\<lparr>uuid_calls := uuid_calls s + 2, FS := FS ?s'\<rparr>)"
      using a by (intro fresh_scratch_cong) simp_all
    ultimately show ?thesis by simp
  qed
qed

lemma process_loop_fresh:
  "fresh_scratch e (snd acc) \<Longrightarrow> inj (uuidv4 e) \<Longrightarrow>
   fresh_scratch e (snd (process_loop e vs acc))"
proof (induction vs arbitrary: acc)
  case Nil
  then show ?case by simp
next
  case (Cons v vs)
  obtain imgs s where acc: "acc = (imgs, s)" by (cases acc)
  with Cons.prems have "fresh_scratch e (snd (process_video e v acc))"
    by (simp add: process_video_fresh)
  from Cons.IH [OF this Cons.prems(2)] show ?case by simp
qed

lemma zip_loop_scratch:
  "uuid_calls (snd (zip_loop e imgs (z, s))) = uuid_calls s
   \<and> FS (snd (zip_loop e imgs (z, s))) = FS s"
  by (induction imgs arbitrary: z s) (simp_all add: fetch_def split: option.split)

lemma handleProcess_snd_cases:
  "snd (handleProcess e s) = s \<or> snd (handleProcess e s) = loaded_state e s
   \<or> snd (handleProcess e s) =
       (snd (process_loop e (videos s) ([], loaded_state e s)))
         \<lparr>images := fst (process_loop e (videos s) ([], loaded_state e s)),
          isProcessing := False\<rparr>"
  by (simp add: handleProcess_def loaded_state_def ensure_loaded_def split_beta Let_def)

lemma step_fresh:
  assumes "fresh_scratch e s" "inj (uuidv4 e)"
  shows "fresh_scratch e (step e s a)"
proof (cases a)
  case (SetVideos vs)
  with assms(1) show ?thesis by (simp add: fresh_scratch_def)
next
  case DownloadAll
  have "fresh_scratch e (snd (handleDownloadAll e s)) = fresh_scratch e s"
    using zip_loop_scratch [of e "images s" "[]" s]
    by (intro fresh_scratch_cong) (simp_all add: handleDownloadAll_def)
  with DownloadAll assms(1) show ?thesis by simp
next
  case Process
  have l: "fresh_scratch e (loaded_state e s)"
    using assms(1) by (simp add: loaded_state_fields)
  let ?r = "process_loop e (videos s) ([], loaded_state e s)"
  have "fresh_scratch e (snd ?r)"
    using l assms(2) by (intro process_loop_fresh) simp_all
  then have "fresh_scratch e ((snd ?r)\<lparr>images := fst ?r, isProcessing := False\<rparr>)"
    by (simp add: fresh_scratch_def)
  with handleProcess_snd_cases [of e s] assms(1) l
  have "fresh_scratch e (snd (handleProcess e s))" by auto
  with Process show ?thesis by simp
qed

lemma run_session_fresh:
  "inj (uuidv4 e) \<Longrightarrow> fresh_scratch e s \<Longrightarrow> fresh_scratch e (run_session e s acts)"
  unfolding run_session_def
  by (induction acts arbitrary: s) (simp_all add: step_fresh)

lemma reachable_fresh:
  "inj (uuidv4 e) \<Longrightarrow> fresh_scratch e (run_session e init_state acts)"
  by (rule run_session_fresh) (simp_all add: fresh_scratch_def init_state_def)

lemmas demo_defs = demo_env_def init_state_def batch_of_def clipA_def clipB_def
  unreachable_def broken_def is_object_url_def

lemma demo_env_fresh: "fresh_scratch demo_env (batch_of vs)"
  by (simp add: fresh_scratch_def batch_of_def init_state_def)

lemma demo_env_inj: "inj (uuidv4 demo_env)" "inj (object_id demo_env)"
  by (simp_all add: demo_env_def inj_def)

section \<open>Failure isolation, completeness and order of the batch\<close>

text \<open>
  Claim C1: when the engine is there and loaded (or loads), the handler returns without
  an exception whatever the inputs do; every input is fetched, in order; every input
  whose fetch or extraction fails adds one alert that names its own URL and nothing
  else; and every valid input has its image in the results, whatever the other inputs
  did. The inputs are URLs of the network, the identifier generator never repeats
  itself, and the scratch names to come are unused, as they are in every state of every
  session (\<open>reachable_fresh\<close>).
\<close>

theorem handleProcess_isolates_failures:
  assumes "ffmpeg_present s" and "isLoaded s \<or> load_result e (load_calls s)"
    and "\<forall>v\<in>set (videos s). \<not> is_object_url (IVideoInput.url v)"
    and "fresh_scratch e s" and "inj (uuidv4 e)"
  shows "fst (handleProcess e s) = None
    \<and> fetched (snd (handleProcess e s)) = fetched s @ map IVideoInput.url (videos s)
    \<and> alerts (snd (handleProcess e s)) =
        alerts s @ map alert_message (filter (\<lambda>v. \<not> valid e v) (videos s))
    \<and> map filename (images (snd (handleProcess e s))) =
        map (\<lambda>v. imageFileName (IVideoInput.url v)) (filter (valid e) (videos s))"
proof -
  have fresh: "fresh_scratch e (loaded_state e s)"
    using assms(4) by (simp add: loaded_state_fields)
  note eff = process_loop_effect [OF assms(3) fresh assms(5), of "[]"]
  show ?thesis
    using eff
    by (simp add: handleProcess_loaded [OF assms(1,2)] loaded_state_fields
        map_filename_image_of)
qed

theorem handleProcess_isolates_failures_witness:
  "ffmpeg_present (batch_of [clipA, unreachable, clipB])
   \<and> load_result demo_env (load_calls (batch_of [clipA, unreachable, clipB]))
   \<and> list_all (\<lambda>v. \<not> is_object_url (IVideoInput.url v))
         (videos (batch_of [clipA, unreachable, clipB]))
   \<and> fresh_scratch demo_env (batch_of [clipA, unreachable, clipB])
   \<and> inj (uuidv4 demo_env)
   \<and> fst (handleProcess demo_env (batch_of [clipA, unreachable, clipB])) = None
   \<and> fetched (snd (handleProcess demo_env (batch_of [clipA, unreachable, clipB]))) =
       [''https://x.com/a/clip.mp4'', ''https://nowhere.invalid/v.mp4'',
        ''https://y.com/b/clip.mp4'']
   \<and> alerts (snd (handleProcess demo_env (batch_of [clipA, unreachable, clipB]))) =
       [''There was an error processing the video: https://nowhere.invalid/v.mp4'']
   \<and> map filename (images (snd (handleProcess demo_env (batch_of [clipA, unreachable, clipB]))))
       = [''clip.webp'', ''clip.webp'']"
proof -
  let ?s = "batch_of [clipA, unreachable, clipB]"
  have h1: "ffmpeg_present ?s" by (simp add: demo_defs)
  have h2: "isLoaded ?s \<or> load_result demo_env (load_calls ?s)" by (simp add: demo_defs)
  have h3: "\<forall>v\<in>set (videos ?s). \<not> is_object_url (IVideoInput.url v)"
    by (simp add: demo_defs)
  have v: "valid demo_env clipA" "\<not> valid demo_env unreachable" "valid demo_env clipB"
    by (simp_all add: valid_def outcome_def demo_defs)
  have f: "imageFileName ''https://x.com/a/clip.mp4'' = ''clip.webp''"
    "imageFileName ''https://y.com/b/clip.mp4'' = ''clip.webp''"
    by (simp_all add: imageFileName_def substring_def ext_char_def)
  have vs: "videos ?s = [clipA, unreachable, clipB]" "fetched ?s = []" "alerts ?s = []"
    by (simp_all add: batch_of_def init_state_def)
  have u: "IVideoInput.url clipA = ''https://x.com/a/clip.mp4''"
    "IVideoInput.url unreachable = ''https://nowhere.invalid/v.mp4''"
    "IVideoInput.url clipB = ''https://y.com/b/clip.mp4''"
    by (simp_all add: clipA_def clipB_def unreachable_def)
  have l: "load_result demo_env (load_calls ?s)" by (simp add: demo_defs)
  from handleProcess_isolates_failures [OF h1 h2 h3 demo_env_fresh demo_env_inj(1)]
  have "fst (handleProcess demo_env ?s) = None
    \<and> fetched (snd (handleProcess demo_env ?s)) =
       [''https://x.com/a/clip.mp4'', ''https://nowhere.invalid/v.mp4'',
        ''https://y.com/b/clip.mp4'']
    \<and> alerts (snd (handleProcess demo_env ?s)) =
       [''There was an error processing the video: https://nowhere.invalid/v.mp4'']
    \<and> map filename (images (snd (handleProcess demo_env ?s))) = [''clip.webp'', ''clip.webp'']"
    by (simp add: vs v f u alert_message_def)
  moreover have "list_all (\<lambda>v. \<not> is_object_url (IVideoInput.url v)) (videos ?s)"
    using h3 by (simp add: list_all_iff)
  ultimately show ?thesis
    using h1 l demo_env_fresh [of "[clipA, unreachable, clipB]"] demo_env_inj(1) by blast
qed

text \<open>
  Claim C3: when the list of inputs is not empty and every input is valid (its URL is
  fetched from the network and the engine writes its frame), the handler returns
  normally, the results are as many as the inputs, and no alert is raised.
\<close>

theorem handleProcess_all_valid:
  assumes "ffmpeg_present s" and "isLoaded s \<or> load_result e (load_calls s)"
    and "videos s \<noteq> []"
    and "\<forall>v\<in>set (videos s). \<not> is_object_url (IVideoInput.url v) \<and> valid e v"
  shows "fst (handleProcess e s) = None
    \<and> length (images (snd (handleProcess e s))) = length (videos s)
    \<and> alerts (snd (handleProcess e s)) = alerts s"
  using process_loop_all_valid [OF assms(4), of "[]" "loaded_state e s"]
  by (simp add: handleProcess_loaded [OF assms(1,2)] loaded_state_fields)

theorem handleProcess_all_valid_witness:
  "ffmpeg_present (batch_of [clipA, clipB])
   \<and> load_result demo_env (load_calls (batch_of [clipA, clipB]))
   \<and> videos (batch_of [clipA, clipB]) \<noteq> []
   \<and> list_all (\<lambda>v. \<not> is_object_url (IVideoInput.url v) \<and> valid demo_env v)
         (videos (batch_of [clipA, clipB]))
   \<and> fst (handleProcess demo_env (batch_of [clipA, clipB])) = None
   \<and> length (images (snd (handleProcess demo_env (batch_of [clipA, clipB])))) = 2
   \<and> alerts (snd (handleProcess demo_env (batch_of [clipA, clipB]))) = []"
proof -
  let ?s = "batch_of [clipA, clipB]"
  have h1: "ffmpeg_present ?s" by (simp add: demo_defs)
  have h2: "isLoaded ?s \<or> load_result demo_env (load_calls ?s)" by (simp add: demo_defs)
  have h3: "videos ?s \<noteq> []" by (simp add: demo_defs)
  have h4: "\<forall>v\<in>set (videos ?s). \<not> is_object_url (IVideoInput.url v) \<and> valid demo_env v"
    by (simp add: valid_def outcome_def demo_defs)
  have vs: "videos ?s = [clipA, clipB]" "alerts ?s = []"
    by (simp_all add: batch_of_def init_state_def)
  have l: "load_result demo_env (load_calls ?s)" by (simp add: demo_defs)
  from handleProcess_all_valid [OF h1 h2 h3 h4]
  have "fst (handleProcess demo_env ?s) = None
    \<and> length (images (snd (handleProcess demo_env ?s))) = 2
    \<and> alerts (snd (handleProcess demo_env ?s)) = []"
    by (simp add: vs)
  moreover
  have "list_all (\<lambda>v. \<not> is_object_url (IVideoInput.url v) \<and> valid demo_env v) (videos ?s)"
    using h4 by (simp add: list_all_iff)
  ultimately show ?thesis using h1 l h3 by blast
qed

text \<open>
  Claim C6: the results are the images of the valid inputs in the order of submission:
  the \<open>i\<close>-th result has the filename derived from the \<open>i\<close>-th valid input and the
  \<open>i\<close>-th object URL made by this call, under which the bytes of that input's frame
  are registered. The inputs are fetched one after the other in the order given, and
  the loop over a list followed by another is the loop over the second list started
  where the loop over the first one ended: an item runs to its end, its \<open>catch\<close>
  included, before the next one begins.
\<close>

theorem handleProcess_results_in_order:
  assumes "ffmpeg_present s" and "isLoaded s \<or> load_result e (load_calls s)"
    and "\<forall>v\<in>set (videos s). \<not> is_object_url (IVideoInput.url v)"
    and "fresh_scratch e s" and "inj (uuidv4 e)" and "inj (object_id e)"
  shows "images (snd (handleProcess e s)) =
      map (\<lambda>(k, v). image_of e k v) (enumerate (url_calls s) (filter (valid e) (videos s)))
    \<and> (\<forall>(k, v)\<in>set (enumerate (url_calls s) (filter (valid e) (videos s))).
          blobs (snd (handleProcess e s)) (objectURL e k) = outcome e v)
    \<and> fetched (snd (handleProcess e s)) = fetched s @ map IVideoInput.url (videos s)
    \<and> process_loop e (xs @ ys) acc = process_loop e ys (process_loop e xs acc)"
proof -
  have fresh: "fresh_scratch e (loaded_state e s)"
    using assms(4) by (simp add: loaded_state_fields)
  note eff = process_loop_effect [OF assms(3) fresh assms(5), of "[]"]
  have "blobs (snd (handleProcess e s)) (objectURL e k) = outcome e v"
    if "(k, v) \<in> set (enumerate (url_calls s) (filter (valid e) (videos s)))" for k v
    using process_loop_blobs [OF assms(3) fresh assms(5,6), of k v "[]"] that
    by (simp add: handleProcess_loaded [OF assms(1,2)] loaded_state_fields)
  then have "\<forall>(k, v)\<in>set (enumerate (url_calls s) (filter (valid e) (videos s))).
          blobs (snd (handleProcess e s)) (objectURL e k) = outcome e v"
    by blast
  then show ?thesis
    using eff
    by (simp add: handleProcess_loaded [OF assms(1,2)] loaded_state_fields process_loop_append)
qed

theorem handleProcess_results_in_order_witness:
  "ffmpeg_present (batch_of [clipA, broken, clipB])
   \<and> load_result demo_env (load_calls (batch_of [clipA, broken, clipB]))
   \<and> list_all (\<lambda>v. \<not> is_object_url (IVideoInput.url v))
         (videos (batch_of [clipA, broken, clipB]))
   \<and> fresh_scratch demo_env (batch_of [clipA, broken, clipB])
   \<and> inj (uuidv4 demo_env) \<and> inj (object_id demo_env)
   \<and> images (snd (handleProcess demo_env (batch_of [clipA, broken, clipB]))) =
       [image_of demo_env 0 clipA, image_of demo_env 1 clipB]
   \<and> blobs (snd (handleProcess demo_env (batch_of [clipA, broken, clipB])))
         (objectURL demo_env 0) = Some [7]
   \<and> blobs (snd (handleProcess demo_env (batch_of [clipA, broken, clipB])))
         (objectURL demo_env 1) = Some [8]
   \<and> fetched (snd (handleProcess demo_env (batch_of [clipA, broken, clipB]))) =
       [''https://x.com/a/clip.mp4'', ''https://x.com/broken.mp4'',
        ''https://y.com/b/clip.mp4'']"
proof -
  let ?s = "batch_of [clipA, broken, clipB]"
  have h1: "ffmpeg_present ?s" by (simp add: demo_defs)
  have h2: "isLoaded ?s \<or> load_result demo_env (load_calls ?s)" by (simp add: demo_defs)
  have h3: "\<forall>v\<in>set (videos ?s). \<not> is_object_url (IVideoInput.url v)"
    by (simp add: demo_defs)
  have v: "valid demo_env clipA" "\<not> valid demo_env broken" "valid demo_env clipB"
    by (simp_all add: valid_def outcome_def demo_defs)
  have o: "outcome demo_env clipA = Some [7]" "outcome demo_env clipB = Some [8]"
    by (simp_all add: outcome_def demo_defs)
  have vs: "videos ?s = [clipA, broken, clipB]" "fetched ?s = []" "url_calls ?s = 0"
    by (simp_all add: batch_of_def init_state_def)
  have u: "IVideoInput.url clipA = ''https://x.com/a/clip.mp4''"
    "IVideoInput.url broken = ''https://x.com/broken.mp4''"
    "IVideoInput.url clipB = ''https://y.com/b/clip.mp4''"
    by (simp_all add: clipA_def clipB_def broken_def)
  have l: "load_result demo_env (load_calls ?s)" by (simp add: demo_defs)
  from handleProcess_results_in_order
    [OF h1 h2 h3 demo_env_fresh demo_env_inj, of "[]" "[]" "([], ?s)"]
  have "images (snd (handleProcess demo_env ?s)) =
       [image_of demo_env 0 clipA, image_of demo_env 1 clipB]
    \<and> blobs (snd (handleProcess demo_env ?s)) (objectURL demo_env 0) = Some [7]
    \<and> blobs (snd (handleProcess demo_env ?s)) (objectURL demo_env 1) = Some [8]
    \<and> fetched (snd (handleProcess demo_env ?s)) =
       [''https://x.com/a/clip.mp4'', ''https://x.com/broken.mp4'',
        ''https://y.com/b/clip.mp4'']"
    by (simp add: vs v o u enumerate_eq_zip)
  moreover have "list_all (\<lambda>v. \<not> is_object_url (IVideoInput.url v)) (videos ?s)"
    using h3 by (simp add: list_all_iff)
  ultimately show ?thesis
    using h1 l demo_env_fresh [of "[clipA, broken, clipB]"] demo_env_inj by blast
qed

section \<open>Scratch files\<close>

text \<open>
  Claim C4 says that both scratch entries of an item are released on every exit path.
  The two \<open>unlink\<close> calls are the last statements of the \<open>try\<close> block, so they run
  when the item succeeds and are skipped when it fails after the input was staged.
  Here a valid input leaves the file system empty, while two inputs that are fetched
  but give no frame each leave their staged input behind.
\<close>

theorem handleProcess_leaves_staged_input:
  "FS (snd (handleProcess demo_env (batch_of [clipA]))) = Map.empty
   \<and> alerts (snd (handleProcess demo_env (batch_of [broken, broken]))) =
       [alert_message broken, alert_message broken]
   \<and> FS (snd (handleProcess demo_env (batch_of [broken, broken]))) ''u.mp4'' = Some [9]
   \<and> FS (snd (handleProcess demo_env (batch_of [broken, broken]))) ''uuu.mp4'' = Some [9]"
  by (simp add: handleProcess_def ensure_loaded_def step_defs demo_defs)

section \<open>A failed load\<close>

text \<open>
  Claim C10: when the engine is not loaded and its load fails, the handler ends with
  that error right after the call of \<open>load\<close>: the only changes are the processing flag
  and the count of load calls, so the images held before are still held, nothing was
  fetched, staged or registered, and no alert was raised.
\<close>

theorem handleProcess_load_failure:
  assumes "ffmpeg_present s" and "\<not> isLoaded s" and "\<not> load_result e (load_calls s)"
  shows "handleProcess e s =
      (Some LoadError, s\<lparr>isProcessing := True, load_calls := load_calls s + 1\<rparr>)
    \<and> images (snd (handleProcess e s)) = images s
    \<and> fetched (snd (handleProcess e s)) = fetched s
    \<and> FS (snd (handleProcess e s)) = FS s
    \<and> blobs (snd (handleProcess e s)) = blobs s
    \<and> uuid_calls (snd (handleProcess e s)) = uuid_calls s
    \<and> alerts (snd (handleProcess e s)) = alerts s"
  using assms by (simp add: handleProcess_def ensure_loaded_def Let_def)

theorem handleProcess_load_failure_witness:
  "ffmpeg_present (holding [(image_of demo_env 0 clipA, [7])])
   \<and> \<not> isLoaded (holding [(image_of demo_env 0 clipA, [7])])
   \<and> \<not> load_result offline_env (load_calls (holding [(image_of demo_env 0 clipA, [7])]))
   \<and> fst (handleProcess offline_env (holding [(image_of demo_env 0 clipA, [7])])) =
       Some LoadError
   \<and> images (snd (handleProcess offline_env (holding [(image_of demo_env 0 clipA, [7])]))) =
       [image_of demo_env 0 clipA]
   \<and> fetched (snd (handleProcess offline_env (holding [(image_of demo_env 0 clipA, [7])]))) = []"
proof -
  let ?s = "holding [(image_of demo_env 0 clipA, [7])]"
  have h1: "ffmpeg_present ?s" by (simp add: holding_def init_state_def)
  have h2: "\<not> isLoaded ?s" by (simp add: holding_def init_state_def)
  have h3: "\<not> load_result offline_env (load_calls ?s)"
    by (simp add: offline_env_def demo_env_def)
  have i: "images ?s = [image_of demo_env 0 clipA]" "fetched ?s = []"
    by (simp_all add: holding_def init_state_def)
  from handleProcess_load_failure [OF h1 h2 h3]
  have "fst (handleProcess offline_env ?s) = Some LoadError
    \<and> images (snd (handleProcess offline_env ?s)) = [image_of demo_env 0 clipA]
    \<and> fetched (snd (handleProcess offline_env ?s)) = []"
    by (simp add: i)
  with h1 h2 h3 show ?thesis by blast
qed

section \<open>Initialisation of the engine\<close>

lemma process_video_engine:
  "isLoaded (snd (process_video e v acc)) = isLoaded (snd acc)
   \<and> load_calls (snd (process_video e v acc)) = load_calls (snd acc)"
  by (cases acc) (auto simp: step_defs split: option.split run_result.split)

lemma process_loop_engine:
  "isLoaded (snd (process_loop e vs acc)) = isLoaded (snd acc)
   \<and> load_calls (snd (process_loop e vs acc)) = load_calls (snd acc)"
  by (induction vs arbitrary: acc) (simp_all add: process_video_engine)

lemma zip_loop_engine:
  "isLoaded (snd (zip_loop e imgs (z, s))) = isLoaded s
   \<and> load_calls (snd (zip_loop e imgs (z, s))) = load_calls s"
  by (induction imgs arbitrary: z s) (simp_all add: fetch_def split: option.split)

lemma handleProcess_engine_loaded:
  "isLoaded s \<Longrightarrow> isLoaded (snd (handleProcess e s)) \<and>
     load_calls (snd (handleProcess e s)) = load_calls s"
  by (simp add: handleProcess_def ensure_loaded_def process_loop_engine split_beta)

lemma handleProcess_engine_inv:
  "engine_inv e s \<Longrightarrow> engine_inv e (snd (handleProcess e s))"
proof (cases "ffmpeg_present s \<and> \<not> isLoaded s")
  case False
  assume "engine_inv e s"
  with False show ?thesis
    using handleProcess_engine_loaded [of s e]
    by (auto simp: engine_inv_def initialisations_def handleProcess_def)
next
  case True
  assume inv: "engine_inv e s"
  show ?thesis
  proof (cases "load_result e (load_calls s)")
    case False
    with True inv show ?thesis
      by (simp add: handleProcess_def ensure_loaded_def Let_def engine_inv_def
          initialisations_def)
  next
    case ok: True
    let ?s1 = "s\<lparr>isProcessing := True, load_calls := load_calls s + 1, isLoaded := True\<rparr>"
    have "handleProcess e s =
      (None, (snd (process_loop e (videos s) ([], ?s1)))
        \<lparr>images := fst (process_loop e (videos s) ([], ?s1)), isProcessing := False\<rparr>)"
      using True ok
      by (simp add: handleProcess_def ensure_loaded_def Let_def split: prod.split)
    moreover have "initialisations e ?s1 = 1"
      using inv True ok by (simp add: engine_inv_def initialisations_def)
    ultimately show ?thesis
      using process_loop_engine [of e "videos s" "([], ?s1)"]
      by (simp add: engine_inv_def initialisations_def)
  qed
qed

lemma step_engine_inv: "engine_inv e s \<Longrightarrow> engine_inv e (step e s a)"
proof (cases a)
  case (SetVideos vs)
  assume "engine_inv e s"
  with SetVideos show ?thesis by (simp add: engine_inv_def initialisations_def)
next
  case Process
  assume "engine_inv e s"
  with Process show ?thesis by (simp add: handleProcess_engine_inv)
next
  case DownloadAll
  assume "engine_inv e s"
  with DownloadAll show ?thesis
    using zip_loop_engine [of e "images s" "[]" s]
    by (simp add: engine_inv_def initialisations_def handleDownloadAll_def)
qed

lemma run_session_engine_inv: "engine_inv e s \<Longrightarrow> engine_inv e (run_session e s acts)"
  unfolding run_session_def
  by (induction acts arbitrary: s) (simp_all add: step_engine_inv)

lemma step_loaded:
  "isLoaded s \<Longrightarrow> isLoaded (step e s a) \<and> load_calls (step e s a) = load_calls s"
  using zip_loop_engine [of e "images s" "[]" s]
  by (cases a) (simp_all add: handleProcess_engine_loaded handleDownloadAll_def)

lemma run_session_loaded:
  "isLoaded s \<Longrightarrow>
   isLoaded (run_session e s acts) \<and> load_calls (run_session e s acts) = load_calls s"
  unfolding run_session_def
proof (induction acts arbitrary: s)
  case Nil
  then show ?case by simp
next
  case (Cons a acts)
  from step_loaded [OF Cons.prems, of e a] Cons.IH [of "step e s a"]
  show ?case by simp
qed

text \<open>
  Claim C7: in a process lifetime, that is after any sequence of actions from the
  initial state, at most one call of \<open>load\<close> has initialised the engine; the load is
  guarded by the loaded flag, so a loaded engine is left alone by \<open>ensure_loaded\<close>; and
  once the engine is loaded, whatever is done later makes no further call of \<open>load\<close>
  and the engine stays loaded. The actions of a session run one after the other.
\<close>

theorem engine_initialised_at_most_once:
  "initialisations e (run_session e init_state acts) \<le> 1
   \<and> (isLoaded s \<longrightarrow>
        isLoaded (run_session e s acts) \<and> load_calls (run_session e s acts) = load_calls s)
   \<and> (isLoaded s \<longrightarrow> ensure_loaded e s = (None, s))"
proof -
  have "engine_inv e init_state"
    by (simp add: engine_inv_def initialisations_def init_state_def)
  then have "engine_inv e (run_session e init_state acts)"
    by (rule run_session_engine_inv)
  then have "initialisations e (run_session e init_state acts) \<le> 1"
    by (simp add: engine_inv_def split: if_splits)
  then show ?thesis
    using run_session_loaded [of s e acts] by (simp add: ensure_loaded_def)
qed

theorem engine_initialised_at_most_once_witness:
  "isLoaded (snd (handleProcess demo_env init_state))
   \<and> initialisations flaky_env
        (run_session flaky_env init_state [Process, SetVideos [clipA], Process, Process]) \<le> 1
   \<and> isLoaded (run_session demo_env (snd (handleProcess demo_env init_state))
        [SetVideos [clipA, broken], Process, DownloadAll, Process])
   \<and> load_calls (run_session demo_env (snd (handleProcess demo_env init_state))
        [SetVideos [clipA, broken], Process, DownloadAll, Process]) = 1
   \<and> ensure_loaded demo_env (snd (handleProcess demo_env init_state)) =
        (None, snd (handleProcess demo_env init_state))"
proof -
  let ?s = "snd (handleProcess demo_env init_state)"
  have h: "isLoaded ?s"
    by (simp add: handleProcess_def ensure_loaded_def step_defs demo_defs)
  have c: "load_calls ?s = 1"
    by (simp add: handleProcess_def ensure_loaded_def step_defs demo_defs)
  from engine_initialised_at_most_once
    [of flaky_env "[Process, SetVideos [clipA], Process, Process]" ?s]
  have a: "initialisations flaky_env
      (run_session flaky_env init_state [Process, SetVideos [clipA], Process, Process]) \<le> 1"
    by simp
  from engine_initialised_at_most_once
    [of demo_env "[SetVideos [clipA, broken], Process, DownloadAll, Process]" ?s] h c
  have b: "isLoaded (run_session demo_env ?s
        [SetVideos [clipA, broken], Process, DownloadAll, Process])
    \<and> load_calls (run_session demo_env ?s
        [SetVideos [clipA, broken], Process, DownloadAll, Process]) = 1
    \<and> ensure_loaded demo_env ?s = (None, ?s)"
    by simp
  from h a b show ?thesis by blast
qed

section \<open>The archive\<close>

lemma image_bytes_fetched [simp]:
  "image_bytes e (s\<lparr>fetched := f\<rparr>) i = image_bytes e s i"
  by (simp add: image_bytes_def fetch_def)

lemma entry_of_fetched [simp]: "entry_of e (s\<lparr>fetched := f\<rparr>) i = entry_of e s i"
  by (simp add: entry_of_def)

lemma zip_loop_ok:
  assumes "\<forall>i\<in>set imgs. image_bytes e s i \<noteq> None"
  shows "fst (zip_loop e imgs (z, s)) =
    Inr (foldl (\<lambda>z p. zip_file (fst p) (snd p) z) z (map (entry_of e s) imgs))"
  using assms
proof (induction imgs arbitrary: z s)
  case Nil
  then show ?case by simp
next
  case (Cons i imgs)
  from Cons.prems obtain b where b: "image_bytes e s i = Some b" by auto
  let ?s1 = "s\<lparr>fetched := fetched s @ [IImageData.url i]\<rparr>"
  from b have f: "fetch e (IImageData.url i) s = (Some b, ?s1)"
    by (simp add: image_bytes_def fetch_def)
  from Cons.prems have "\<forall>i\<in>set imgs. image_bytes e ?s1 i \<noteq> None" by simp
  from Cons.IH [OF this, of "zip_file (filename i) b z"] b f
  show ?case by (simp add: entry_of_def)
qed

lemma zip_file_fresh: "n \<notin> fst ` set z \<Longrightarrow> zip_file n b z = z @ [(n, b)]"
  by (induction z) auto

lemma foldl_zip_file_distinct:
  assumes "distinct (map fst ps)" "fst ` set ps \<inter> fst ` set z = {}"
  shows "foldl (\<lambda>z p. zip_file (fst p) (snd p) z) z ps = z @ ps"
  using assms
proof (induction ps arbitrary: z)
  case Nil
  then show ?case by simp
next
  case (Cons p ps)
  from Cons.prems have "fst p \<notin> fst ` set z" by auto
  then have zf: "zip_file (fst p) (snd p) z = z @ [p]" by (simp add: zip_file_fresh)
  from Cons.prems have "distinct (map fst ps)" "fst ` set ps \<inter> fst ` set (z @ [p]) = {}"
    by auto
  from Cons.IH [OF this] zf show ?case by simp
qed

lemma map_of_zip_file: "map_of (zip_file n b z) = (map_of z)(n \<mapsto> b)"
  by (induction z) (auto simp: fun_eq_iff)

lemma names_zip_file: "fst ` set (zip_file n b z) = insert n (fst ` set z)"
  by (induction n b z rule: zip_file.induct) force+

lemma distinct_zip_file: "distinct (map fst z) \<Longrightarrow> distinct (map fst (zip_file n b z))"
  by (induction z) (auto simp: names_zip_file)

lemma foldl_zip_file_props:
  "distinct (map fst z) \<Longrightarrow>
   distinct (map fst (foldl (\<lambda>z p. zip_file (fst p) (snd p) z) z ps))
   \<and> fst ` set (foldl (\<lambda>z p. zip_file (fst p) (snd p) z) z ps) = fst ` set z \<union> fst ` set ps
   \<and> map_of (foldl (\<lambda>z p. zip_file (fst p) (snd p) z) z ps) = map_of z ++ map_of (rev ps)"
proof (induction ps arbitrary: z)
  case Nil
  then show ?case by simp
next
  case (Cons p ps)
  have "map_of (zip_file (fst p) (snd p) z) ++ map_of (rev ps) =
      map_of z ++ map_of (rev ps @ [p])"
    by (cases p) (simp add: map_of_zip_file map_add_upd_left fun_eq_iff map_add_def
        split: option.split)
  with Cons.IH [OF distinct_zip_file [OF Cons.prems], of "fst p" "snd p"]
  show ?case by (auto simp: names_zip_file)
qed

lemma distinct_count_one:
  "distinct (map fst z) \<Longrightarrow> n \<in> fst ` set z \<Longrightarrow> length (filter (\<lambda>p. fst p = n) z) = 1"
  by (induction z) (auto simp: image_iff filter_empty_conv)

text \<open>
  Claim C5 says that the archive has exactly one entry per image, so that unpacking it
  gives the names and bytes back. Two inputs with the same last path segment give two
  images with the same filename, and the archive made of them has one entry.
\<close>

theorem handleDownloadAll_same_name_counterexample:
  "length (images (snd (handleProcess demo_env (batch_of [clipA, clipB])))) = 2
   \<and> fst (handleDownloadAll demo_env (snd (handleProcess demo_env (batch_of [clipA, clipB]))))
       = Inr [(''clip.webp'', [8])]
   \<and> fst (handleDownloadAll demo_env (snd (handleProcess demo_env (batch_of [clipA, clipB]))))
       \<noteq> Inr (map (entry_of demo_env (snd (handleProcess demo_env (batch_of [clipA, clipB]))))
             (images (snd (handleProcess demo_env (batch_of [clipA, clipB])))))"
  by (simp add: handleProcess_def ensure_loaded_def step_defs demo_defs handleDownloadAll_def
      imageFileName_def substring_def ext_char_def entry_of_def image_bytes_def)

text \<open>
  Claim C5, amended: when the filenames of the images are pairwise distinct and the
  bytes of every image can be read, the archive has exactly one entry per image, in the
  order of the images, named by the image's filename and holding the image's bytes; in
  particular the images \<open>a.webp\<close> with bytes \<open>B1\<close> and \<open>b.webp\<close> with bytes \<open>B2\<close> give
  exactly the entries \<open>(a.webp, B1)\<close> and \<open>(b.webp, B2)\<close>.
\<close>

theorem handleDownloadAll_distinct_names:
  assumes "distinct (map filename (images s))"
    and "\<forall>i\<in>set (images s). image_bytes e s i \<noteq> None"
  shows "fst (handleDownloadAll e s) = Inr (map (entry_of e s) (images s))"
proof -
  have "distinct (map fst (map (entry_of e s) (images s)))"
    using assms(1) by (simp add: entry_of_def o_def)
  moreover have "fst ` set (map (entry_of e s) (images s)) \<inter> fst ` set [] = {}"
    by simp
  ultimately
  have "foldl (\<lambda>z p. zip_file (fst p) (snd p) z) [] (map (entry_of e s) (images s)) =
      [] @ map (entry_of e s) (images s)"
    by (rule foldl_zip_file_distinct)
  then show ?thesis
    by (simp add: handleDownloadAll_def zip_loop_ok [OF assms(2)])
qed

theorem handleDownloadAll_distinct_names_witness:
  "distinct (map filename (images (holding
      [(\<lparr>IImageData.url = ''blob:o'', filename = ''a.webp''\<rparr>, [1, 1]),
       (\<lparr>IImageData.url = ''blob:oo'', filename = ''b.webp''\<rparr>, [2, 2, 2])])))
   \<and> list_all (\<lambda>i. image_bytes demo_env (holding
      [(\<lparr>IImageData.url = ''blob:o'', filename = ''a.webp''\<rparr>, [1, 1]),
       (\<lparr>IImageData.url = ''blob:oo'', filename = ''b.webp''\<rparr>, [2, 2, 2])]) i \<noteq> None)
      (images (holding
      [(\<lparr>IImageData.url = ''blob:o'', filename = ''a.webp''\<rparr>, [1, 1]),
       (\<lparr>IImageData.url = ''blob:oo'', filename = ''b.webp''\<rparr>, [2, 2, 2])]))
   \<and> fst (handleDownloadAll demo_env (holding
      [(\<lparr>IImageData.url = ''blob:o'', filename = ''a.webp''\<rparr>, [1, 1]),
       (\<lparr>IImageData.url = ''blob:oo'', filename = ''b.webp''\<rparr>, [2, 2, 2])])) =
      Inr [(''a.webp'', [1, 1]), (''b.webp'', [2, 2, 2])]"
proof -
  let ?s = "holding
      [(\<lparr>IImageData.url = ''blob:o'', filename = ''a.webp''\<rparr>, [1, 1]),
       (\<lparr>IImageData.url = ''blob:oo'', filename = ''b.webp''\<rparr>, [2, 2, 2])]"
  have h1: "distinct (map filename (images ?s))"
    by (simp add: holding_def init_state_def)
  have h2: "\<forall>i\<in>set (images ?s). image_bytes demo_env ?s i \<noteq> None"
    by (simp add: holding_def init_state_def image_bytes_def fetch_def is_object_url_def)
  have e: "map (entry_of demo_env ?s) (images ?s) =
      [(''a.webp'', [1, 1]), (''b.webp'', [2, 2, 2])]"
    by (simp add: holding_def init_state_def entry_of_def image_bytes_def fetch_def
        is_object_url_def)
  from handleDownloadAll_distinct_names [OF h1 h2]
  have "fst (handleDownloadAll demo_env ?s) =
      Inr [(''a.webp'', [1, 1]), (''b.webp'', [2, 2, 2])]"
    by (simp only: e)
  moreover have "list_all (\<lambda>i. image_bytes demo_env ?s i \<noteq> None) (images ?s)"
    using h2 by (simp add: list_all_iff)
  ultimately show ?thesis using h1 by blast
qed

text \<open>
  Claim C9: the archive has one entry under the filename of an image that no later
  image shares, whatever the earlier images are called, and the content of that entry
  is the bytes of this image, the last of its name: a later write under a name that is
  there already replaces the content. No entry is renamed or left out: the names of
  the archive are the filenames of the images, each once.
\<close>

theorem handleDownloadAll_last_write_wins:
  assumes "\<forall>i\<in>set (images s). image_bytes e s i \<noteq> None"
    and "images s = pre @ j # post"
    and "filename j \<notin> filename ` set post"
  shows "\<exists>z. fst (handleDownloadAll e s) = Inr z
    \<and> length (filter (\<lambda>p. fst p = filename j) z) = 1
    \<and> map_of z (filename j) = image_bytes e s j
    \<and> distinct (map fst z)
    \<and> fst ` set z = filename ` set (images s)"
proof -
  let ?ps = "map (entry_of e s) (images s)"
  let ?z = "foldl (\<lambda>z p. zip_file (fst p) (snd p) z) [] ?ps"
  have r: "fst (handleDownloadAll e s) = Inr ?z"
    by (simp add: handleDownloadAll_def zip_loop_ok [OF assms(1)])
  have props: "distinct (map fst ?z)" "fst ` set ?z = fst ` set ?ps"
    "map_of ?z = map_of (rev ?ps)"
    using foldl_zip_file_props [of "[]" ?ps] by simp_all
  have names: "fst ` set ?ps = filename ` set (images s)"
    by (force simp: entry_of_def)
  have "filename j \<in> fst ` set ?z"
    using props(2) names assms(2) by simp
  with props(1) have one: "length (filter (\<lambda>p. fst p = filename j) ?z) = 1"
    by (rule distinct_count_one)
  from assms(1,2) obtain b where b: "image_bytes e s j = Some b" by auto
  have "filename j \<notin> fst ` set (rev (map (entry_of e s) post))"
    using assms(3) by (force simp: entry_of_def)
  then have "map_of (rev (map (entry_of e s) post)) (filename j) = None"
    by (simp add: map_of_eq_None_iff)
  then have "map_of (rev ?ps) (filename j) = Some b"
    using b by (simp add: assms(2) entry_of_def map_add_def)
  with props(3) b have "map_of ?z (filename j) = image_bytes e s j" by simp
  with r one props(1,2) names show ?thesis by simp
qed

theorem handleDownloadAll_last_write_wins_witness:
  "list_all (\<lambda>i. image_bytes demo_env (holding
      [(\<lparr>IImageData.url = ''blob:o'', filename = ''clip.webp''\<rparr>, [7]),
       (\<lparr>IImageData.url = ''blob:oo'', filename = ''clip.webp''\<rparr>, [8])]) i \<noteq> None)
      (images (holding
      [(\<lparr>IImageData.url = ''blob:o'', filename = ''clip.webp''\<rparr>, [7]),
       (\<lparr>IImageData.url = ''blob:oo'', filename = ''clip.webp''\<rparr>, [8])]))
   \<and> images (holding
      [(\<lparr>IImageData.url = ''blob:o'', filename = ''clip.webp''\<rparr>, [7]),
       (\<lparr>IImageData.url = ''blob:oo'', filename = ''clip.webp''\<rparr>, [8])]) =
      [\<lparr>IImageData.url = ''blob:o'', filename = ''clip.webp''\<rparr>] @
      \<lparr>IImageData.url = ''blob:oo'', filename = ''clip.webp''\<rparr> # []
   \<and> (\<exists>z. fst (handleDownloadAll demo_env (holding
      [(\<lparr>IImageData.url = ''blob:o'', filename = ''clip.webp''\<rparr>, [7]),
       (\<lparr>IImageData.url = ''blob:oo'', filename = ''clip.webp''\<rparr>, [8])])) = Inr z
      \<and> length (filter (\<lambda>p. fst p = ''clip.webp'') z) = 1
      \<and> map_of z ''clip.webp'' = Some [8])"
proof -
  let ?i = "\<lparr>IImageData.url = ''blob:o'', filename = ''clip.webp''\<rparr>"
  let ?j = "\<lparr>IImageData.url = ''blob:oo'', filename = ''clip.webp''\<rparr>"
  let ?s = "holding [(?i, [7]), (?j, [8])]"
  have h1: "\<forall>i\<in>set (images ?s). image_bytes demo_env ?s i \<noteq> None"
    by (simp add: holding_def init_state_def image_bytes_def fetch_def is_object_url_def)
  have h2: "images ?s = [?i] @ ?j # []"
    by (simp add: holding_def init_state_def)
  have h3: "filename ?j \<notin> filename ` set []" by simp
  have b: "image_bytes demo_env ?s ?j = Some [8]"
    by (simp add: holding_def init_state_def image_bytes_def fetch_def is_object_url_def)
  from handleDownloadAll_last_write_wins [OF h1 h2 h3]
  obtain z where "fst (handleDownloadAll demo_env ?s) = Inr z"
    "length (filter (\<lambda>p. fst p = filename ?j) z) = 1"
    "map_of z (filename ?j) = image_bytes demo_env ?s ?j"
    by blast
  then have "\<exists>z. fst (handleDownloadAll demo_env ?s) = Inr z
      \<and> length (filter (\<lambda>p. fst p = ''clip.webp'') z) = 1
      \<and> map_of z ''clip.webp'' = Some [8]"
    using b by auto
  moreover have "list_all (\<lambda>i. image_bytes demo_env ?s i \<noteq> None) (images ?s)"
    using h1 by (simp add: list_all_iff)
  ultimately show ?thesis using h2 by blast
qed

end
